theory Spec2Isabelle
  imports Complex_Main "HOL-Library.AList"
begin

section \<open>Text as the programs see it\<close>

text \<open>
  A JavaScript string is held as the UTF-8 bytes of its code points, one \<open>char\<close> per byte,
  so that the bytes a transport delivers and the text made from them have one type.
  A surrogate that stands alone (only a \<open>\u\<close> escape of JSON can make one) is held in the
  three-byte form of its number.
\<close>

definition utf8_encode :: "nat \<Rightarrow> string" where
  "utf8_encode n =
     (if n < 0x80 then [char_of n]
      else if n < 0x800 then [char_of (0xC0 + n div 0x40), char_of (0x80 + n mod 0x40)]
      else if n < 0x10000 then
        [char_of (0xE0 + n div 0x1000), char_of (0x80 + n div 0x40 mod 0x40),
         char_of (0x80 + n mod 0x40)]
      else
        [char_of (0xF0 + n div 0x40000), char_of (0x80 + n div 0x1000 mod 0x40),
         char_of (0x80 + n div 0x40 mod 0x40), char_of (0x80 + n mod 0x40)])"

subsection \<open>\<open>new TextDecoder().decode(value)\<close>\<close>

text \<open>
  Both read loops call \<open>decoder.decode(value)\<close> with no \<open>stream\<close> option, so every call
  decodes its bytes on their own: a sequence cut by the end of the bytes comes out as
  U+FFFD, and nothing is kept for the next call. \<open>utf8_decode\<close> is the UTF-8 decoder of
  the Encoding standard: an ill-formed sequence gives one U+FFFD and the byte that broke it
  is read again. A leading byte order mark is dropped.
\<close>

definition replacement :: string where
  "replacement = [CHR 0xEF, CHR 0xBF, CHR 0xBD]"

definition between :: "nat \<Rightarrow> nat \<Rightarrow> char \<Rightarrow> bool" where
  "between lo hi c = (lo \<le> of_char c \<and> of_char c \<le> hi)"

definition lower_boundary :: "char \<Rightarrow> nat" where
  "lower_boundary b = (if b = CHR 0xE0 then 0xA0 else if b = CHR 0xF0 then 0x90 else 0x80)"

definition upper_boundary :: "char \<Rightarrow> nat" where
  "upper_boundary b = (if b = CHR 0xED then 0x9F else if b = CHR 0xF4 then 0x8F else 0xBF)"

fun utf8_decode :: "string \<Rightarrow> string" where
  "utf8_decode [] = []"
| "utf8_decode (b # bs) =
     (if of_char b < (0x80::nat) then b # utf8_decode bs
      else if between 0xC2 0xDF b then
        (case bs of
           [] \<Rightarrow> replacement
         | c # cs \<Rightarrow>
             if between 0x80 0xBF c then b # c # utf8_decode cs
             else replacement @ utf8_decode bs)
      else if between 0xE0 0xEF b then
        (case bs of
           [] \<Rightarrow> replacement
         | c # cs \<Rightarrow>
             if between (lower_boundary b) (upper_boundary b) c then
               (case cs of
                  [] \<Rightarrow> replacement
                | d # ds \<Rightarrow>
                    if between 0x80 0xBF d then b # c # d # utf8_decode ds
                    else replacement @ utf8_decode cs)
             else replacement @ utf8_decode bs)
      else if between 0xF0 0xF4 b then
        (case bs of
           [] \<Rightarrow> replacement
         | c # cs \<Rightarrow>
             if between (lower_boundary b) (upper_boundary b) c then
               (case cs of
                  [] \<Rightarrow> replacement
                | d # ds \<Rightarrow>
                    if between 0x80 0xBF d then
                      (case ds of
                         [] \<Rightarrow> replacement
                       | e # es \<Rightarrow>
                           if between 0x80 0xBF e then b # c # d # e # utf8_decode es
                           else replacement @ utf8_decode ds)
                    else replacement @ utf8_decode cs)
             else replacement @ utf8_decode bs)
      else replacement @ utf8_decode bs)"

definition byte_order_mark :: string where
  "byte_order_mark = [CHR 0xEF, CHR 0xBB, CHR 0xBF]"

definition TextDecoder_decode :: "string \<Rightarrow> string" where
  "TextDecoder_decode bytes =
     (let t = utf8_decode bytes
      in if take 3 t = byte_order_mark then drop 3 t else t)"

subsection \<open>\<open>chunk.split('\n')\<close>\<close>

fun split_from :: "string \<Rightarrow> string \<Rightarrow> string list" where
  "split_from seg [] = [seg]"
| "split_from seg (c # cs) =
     (if c = CHR 0x0A then seg # split_from [] cs else split_from (seg @ [c]) cs)"

definition split_newline :: "string \<Rightarrow> string list" where
  "split_newline s = split_from [] s"

subsection \<open>\<open>line.trim()\<close>\<close>

text \<open>
  The code points \<open>trim\<close> removes: the white space and the line terminators of ECMAScript.
\<close>

definition white_space :: "nat list" where
  "white_space =
     [0x9, 0xA, 0xB, 0xC, 0xD, 0x20, 0xA0, 0x1680,
      0x2000, 0x2001, 0x2002, 0x2003, 0x2004, 0x2005, 0x2006, 0x2007, 0x2008, 0x2009, 0x200A,
      0x2028, 0x2029, 0x202F, 0x205F, 0x3000, 0xFEFF]"

definition starts_with :: "string \<Rightarrow> string \<Rightarrow> bool" where
  "starts_with s w = (w \<noteq> [] \<and> take (length w) s = w)"

function strip :: "string list \<Rightarrow> string \<Rightarrow> string" where
  "strip ws s =
     (case filter (starts_with s) ws of
        [] \<Rightarrow> s
      | w # _ \<Rightarrow> strip ws (drop (length w) s))"
  by pat_completeness auto
termination
proof (relation "measure (\<lambda>(ws, s). length s)")
  show "wf (measure (\<lambda>(ws, s). length s))" by simp
next
  fix ws :: "string list" and s w :: string and rest :: "string list"
  assume "filter (starts_with s) ws = w # rest"
  then have "starts_with s w"
    by (metis filter_eq_ConsD)
  then have "w \<noteq> []" and "take (length w) s = w"
    by (simp_all add: starts_with_def)
  then have "s \<noteq> []" by auto
  with \<open>w \<noteq> []\<close> show "((ws, drop (length w) s), (ws, s)) \<in> measure (\<lambda>(ws, s). length s)"
    by simp
qed

declare strip.simps [simp del]

definition trimStart :: "string \<Rightarrow> string" where
  "trimStart s = strip (map utf8_encode white_space) s"

definition trimEnd :: "string \<Rightarrow> string" where
  "trimEnd s = rev (strip (map (rev \<circ> utf8_encode) white_space) (rev s))"

definition trim :: "string \<Rightarrow> string" where
  "trim s = trimEnd (trimStart s)"

section \<open>JSON\<close>

text \<open>
  A number is kept as it is written. JavaScript holds the nearest double and prints that,
  so the text differs for numbers such as \<open>1.0\<close>, \<open>1e3\<close> or \<open>-0\<close>; nothing below depends on the
  text of a number.
\<close>

datatype json =
    JNull
  | JBool bool
  | JNum string
  | JStr string
  | JArr "json list"
  | JObj "(string \<times> json) list"

subsection \<open>\<open>JSON.parse\<close>\<close>

definition json_space :: "char \<Rightarrow> bool" where
  "json_space c = (c = CHR 0x20 \<or> c = CHR 0x09 \<or> c = CHR 0x0A \<or> c = CHR 0x0D)"

definition skip_ws :: "string \<Rightarrow> string" where
  "skip_ws s = dropWhile json_space s"

text \<open>
  The body of a string, after its opening quote: the characters as written (\<open>Lit\<close>) and the
  escapes as the code units they name (\<open>Esc\<close>), up to the closing quote.
\<close>

datatype piece = Lit char | Esc nat

definition hex_digit :: "char \<Rightarrow> nat option" where
  "hex_digit c =
     (let n = of_char c :: nat
      in if 0x30 \<le> n \<and> n \<le> 0x39 then Some (n - 0x30)
         else if 0x41 \<le> n \<and> n \<le> 0x46 then Some (n - 0x37)
         else if 0x61 \<le> n \<and> n \<le> 0x66 then Some (n - 0x57)
         else None)"

definition hex4 :: "char \<Rightarrow> char \<Rightarrow> char \<Rightarrow> char \<Rightarrow> nat option" where
  "hex4 a b c d =
     (case (hex_digit a, hex_digit b, hex_digit c, hex_digit d) of
        (Some h3, Some h2, Some h1, Some h0) \<Rightarrow> Some (((h3 * 16 + h2) * 16 + h1) * 16 + h0)
      | _ \<Rightarrow> None)"

definition simple_escape :: "char \<Rightarrow> nat option" where
  "simple_escape e =
     (if e = CHR 0x22 then Some 0x22
      else if e = CHR 0x5C then Some 0x5C
      else if e = CHR ''/'' then Some 0x2F
      else if e = CHR ''b'' then Some 0x08
      else if e = CHR ''f'' then Some 0x0C
      else if e = CHR ''n'' then Some 0x0A
      else if e = CHR ''r'' then Some 0x0D
      else if e = CHR ''t'' then Some 0x09
      else None)"

fun string_body :: "string \<Rightarrow> (piece list \<times> string) option" where
  "string_body [] = None"
| "string_body (c # cs) =
     (if c = CHR 0x22 then Some ([], cs)
      else if c = CHR 0x5C then
        (case cs of
           [] \<Rightarrow> None
         | e # es \<Rightarrow>
             if e = CHR ''u'' then
               (case es of
                  h3 # h2 # h1 # h0 # rest \<Rightarrow>
                    (case hex4 h3 h2 h1 h0 of
                       None \<Rightarrow> None
                     | Some u \<Rightarrow>
                         (case string_body rest of
                            None \<Rightarrow> None
                          | Some (ps, r) \<Rightarrow> Some (Esc u # ps, r)))
                | _ \<Rightarrow> None)
             else
               (case simple_escape e of
                  None \<Rightarrow> None
                | Some u \<Rightarrow>
                    (case string_body es of
                       None \<Rightarrow> None
                     | Some (ps, r) \<Rightarrow> Some (Esc u # ps, r))))
      else if of_char c < (0x20::nat) then None
      else
        (case string_body cs of
           None \<Rightarrow> None
         | Some (ps, r) \<Rightarrow> Some (Lit c # ps, r)))"

text \<open>The string the pieces spell: an escaped surrogate pair is one code point.\<close>

fun assemble :: "piece list \<Rightarrow> string" where
  "assemble [] = []"
| "assemble (Lit c # ps) = c # assemble ps"
| "assemble (Esc h # Esc l # ps) =
     (if 0xD800 \<le> h \<and> h < 0xDC00 \<and> 0xDC00 \<le> l \<and> l < 0xE000
      then utf8_encode (0x10000 + (h - 0xD800) * 0x400 + (l - 0xDC00)) @ assemble ps
      else utf8_encode h @ assemble (Esc l # ps))"
| "assemble (Esc u # ps) = utf8_encode u @ assemble ps"

definition digit :: "char \<Rightarrow> bool" where
  "digit c = (0x30 \<le> (of_char c :: nat) \<and> (of_char c :: nat) \<le> 0x39)"

text \<open>
  The text of a number: an optional minus, the whole part (a single zero, or digits that
  do not start with zero), an optional fraction and an optional exponent.
\<close>

definition digits :: "string \<Rightarrow> string \<times> string" where
  "digits s = (takeWhile digit s, dropWhile digit s)"

definition fraction_part :: "string \<Rightarrow> (string \<times> string) option" where
  "fraction_part s =
     (case s of
        [] \<Rightarrow> Some ([], s)
      | c # r \<Rightarrow>
          if c = CHR ''.'' then
            (case digits r of (ds, r') \<Rightarrow> if ds = [] then None else Some (c # ds, r'))
          else Some ([], s))"

definition exponent_part :: "string \<Rightarrow> (string \<times> string) option" where
  "exponent_part s =
     (case s of
        [] \<Rightarrow> Some ([], s)
      | c # r \<Rightarrow>
          if c = CHR ''e'' \<or> c = CHR ''E'' then
            (case (if take 1 r = ''+'' \<or> take 1 r = ''-'' then (take 1 r, drop 1 r) else ([], r)) of
               (sign, r1) \<Rightarrow>
                 (case digits r1 of
                    (ds, r2) \<Rightarrow> if ds = [] then None else Some (c # sign @ ds, r2)))
          else Some ([], s))"

definition number_lexeme :: "string \<Rightarrow> (string \<times> string) option" where
  "number_lexeme s =
     (case (if take 1 s = ''-'' then (''-'', drop 1 s) else ([], s)) of
        (sign, s1) \<Rightarrow>
          (case (if take 1 s1 = ''0'' then (''0'', drop 1 s1) else digits s1) of
             (whole, s2) \<Rightarrow>
               if whole = [] then None
               else
                 (case fraction_part s2 of
                    None \<Rightarrow> None
                  | Some (fr, s3) \<Rightarrow>
                      (case exponent_part s3 of
                         None \<Rightarrow> None
                       | Some (ex, s4) \<Rightarrow> Some (sign @ whole @ fr @ ex, s4)))))"

text \<open>
  The properties of an object, in the order JavaScript keeps them: a key given twice keeps
  its first place and its last value, and array indices come first, in ascending order.
\<close>

definition decimal :: "string \<Rightarrow> nat" where
  "decimal ds = foldl (\<lambda>n c. 10 * n + (of_char c - 0x30)) 0 ds"

definition array_index :: "string \<Rightarrow> nat option" where
  "array_index k =
     (if k \<noteq> [] \<and> list_all digit k \<and> (k = ''0'' \<or> take 1 k \<noteq> ''0'') \<and> decimal k < 4294967295
      then Some (decimal k) else None)"

fun insert_indexed :: "nat \<Rightarrow> string \<Rightarrow> 'v \<Rightarrow> (string \<times> 'v) list \<Rightarrow> (string \<times> 'v) list" where
  "insert_indexed i k v [] = [(k, v)]"
| "insert_indexed i k v ((k', v') # ms) =
     (case array_index k' of
        Some j \<Rightarrow> if j < i then (k', v') # insert_indexed i k v ms else (k, v) # (k', v') # ms
      | None \<Rightarrow> (k, v) # (k', v') # ms)"

definition define_property :: "string \<Rightarrow> 'v \<Rightarrow> (string \<times> 'v) list \<Rightarrow> (string \<times> 'v) list" where
  "define_property k v ms =
     (case (map_of ms k, array_index k) of
        (None, Some i) \<Rightarrow> insert_indexed i k v ms
      | _ \<Rightarrow> AList.update k v ms)"

definition object_of :: "(string \<times> 'v) list \<Rightarrow> (string \<times> 'v) list" where
  "object_of ms = foldl (\<lambda>obj (k, v). define_property k v obj) [] ms"

text \<open>
  The parser of values, array elements and object members. A call on the rest of the text is
  guarded by a test that the rest is shorter: it never fails, since every value takes at
  least one character, and it makes the recursion well-founded.
\<close>

lemma skip_ws_Cons: "skip_ws s = c # r \<Longrightarrow> length r < length s"
  using length_dropWhile_le [of json_space s] by (simp add: skip_ws_def)

function parse_value :: "string \<Rightarrow> (json \<times> string) option"
  and parse_elements :: "string \<Rightarrow> (json list \<times> string) option"
  and parse_members :: "string \<Rightarrow> ((string \<times> json) list \<times> string) option"
where
  "parse_value s =
     (case skip_ws s of
        [] \<Rightarrow> None
      | c # r \<Rightarrow>
          if c = CHR ''{'' then
            (if take 1 (skip_ws r) = ''}'' then Some (JObj [], drop 1 (skip_ws r))
             else (case parse_members r of
                     None \<Rightarrow> None
                   | Some (ms, t) \<Rightarrow> Some (JObj (object_of ms), t)))
          else if c = CHR ''['' then
            (if take 1 (skip_ws r) = '']'' then Some (JArr [], drop 1 (skip_ws r))
             else (case parse_elements r of
                     None \<Rightarrow> None
                   | Some (vs, t) \<Rightarrow> Some (JArr vs, t)))
          else if c = CHR 0x22 then
            (case string_body r of
               None \<Rightarrow> None
             | Some (ps, t) \<Rightarrow> Some (JStr (assemble ps), t))
          else if take 4 (c # r) = ''true'' then Some (JBool True, drop 4 (c # r))
          else if take 5 (c # r) = ''false'' then Some (JBool False, drop 5 (c # r))
          else if take 4 (c # r) = ''null'' then Some (JNull, drop 4 (c # r))
          else (case number_lexeme (c # r) of
                  None \<Rightarrow> None
                | Some (num, t) \<Rightarrow> Some (JNum num, t)))"
| "parse_elements s =
     (case parse_value s of
        None \<Rightarrow> None
      | Some (v, r) \<Rightarrow>
          (case skip_ws r of
             [] \<Rightarrow> None
           | c # t \<Rightarrow>
               if c = CHR '','' then
                 (if length t < length s then
                    (case parse_elements t of
                       None \<Rightarrow> None
                     | Some (vs, u) \<Rightarrow> Some (v # vs, u))
                  else None)
               else if c = CHR '']'' then Some ([v], t)
               else None))"
| "parse_members s =
     (case skip_ws s of
        [] \<Rightarrow> None
      | q # r \<Rightarrow>
          if q \<noteq> CHR 0x22 then None
          else
            (case string_body r of
               None \<Rightarrow> None
             | Some (ps, r1) \<Rightarrow>
                 (case skip_ws r1 of
                    [] \<Rightarrow> None
                  | c # r2 \<Rightarrow>
                      if c \<noteq> CHR '':'' then None
                      else if length r2 < length s then
                        (case parse_value r2 of
                           None \<Rightarrow> None
                         | Some (v, r3) \<Rightarrow>
                             (case skip_ws r3 of
                                [] \<Rightarrow> None
                              | d # r4 \<Rightarrow>
                                  if d = CHR '','' then
                                    (if length r4 < length s then
                                       (case parse_members r4 of
                                          None \<Rightarrow> None
                                        | Some (ms, u) \<Rightarrow> Some ((assemble ps, v) # ms, u))
                                     else None)
                                  else if d = CHR ''}'' then Some ([(assemble ps, v)], r4)
                                  else None))
                      else None)))"
  by pat_completeness auto
termination
  by (relation "inv_image (less_than <*lex*> less_than)
        (\<lambda>x. case x of
                Inl s \<Rightarrow> (length s, 0::nat)
              | Inr (Inl s) \<Rightarrow> (length s, 1)
              | Inr (Inr s) \<Rightarrow> (length s, 1))")
    (auto dest: skip_ws_Cons)

declare parse_value.simps [simp del] parse_elements.simps [simp del]
  parse_members.simps [simp del]

definition JSON_parse :: "string \<Rightarrow> json option" where
  "JSON_parse s =
     (case parse_value s of
        None \<Rightarrow> None
      | Some (v, r) \<Rightarrow> if skip_ws r = [] then Some v else None)"

subsection \<open>\<open>JSON.stringify\<close>\<close>

text \<open>
  Control characters, the quote and the backslash are escaped, and so is a surrogate that
  stands alone; every other byte is copied.
\<close>

definition hex_char :: "nat \<Rightarrow> char" where
  "hex_char n = (if n < 10 then char_of (0x30 + n) else char_of (0x57 + n))"

definition unicode_escape :: "nat \<Rightarrow> string" where
  "unicode_escape n =
     [CHR 0x5C, CHR ''u'', hex_char (n div 0x1000), hex_char (n div 0x100 mod 0x10),
      hex_char (n div 0x10 mod 0x10), hex_char (n mod 0x10)]"

fun quote_body :: "string \<Rightarrow> string" where
  "quote_body [] = []"
| "quote_body (c # cs) =
     (if c = CHR 0x08 then [CHR 0x5C, CHR ''b''] @ quote_body cs
      else if c = CHR 0x09 then [CHR 0x5C, CHR ''t''] @ quote_body cs
      else if c = CHR 0x0A then [CHR 0x5C, CHR ''n''] @ quote_body cs
      else if c = CHR 0x0C then [CHR 0x5C, CHR ''f''] @ quote_body cs
      else if c = CHR 0x0D then [CHR 0x5C, CHR ''r''] @ quote_body cs
      else if c = CHR 0x22 then [CHR 0x5C, CHR 0x22] @ quote_body cs
      else if c = CHR 0x5C then [CHR 0x5C, CHR 0x5C] @ quote_body cs
      else if of_char c < (0x20::nat) then unicode_escape (of_char c) @ quote_body cs
      else if c = CHR 0xED then
        (case cs of
           d # e # rest \<Rightarrow>
             if between 0xA0 0xBF d \<and> between 0x80 0xBF e then
               unicode_escape (0xD000 + (of_char d - 0x80) * 0x40 + (of_char e - 0x80))
                 @ quote_body rest
             else c # quote_body cs
         | _ \<Rightarrow> c # quote_body cs)
      else c # quote_body cs)"

definition quote :: "string \<Rightarrow> string" where
  "quote s = [CHR 0x22] @ quote_body s @ [CHR 0x22]"

fun join :: "string \<Rightarrow> string list \<Rightarrow> string" where
  "join sep [] = []"
| "join sep [x] = x"
| "join sep (x # y # ys) = x @ sep @ join sep (y # ys)"

fun JSON_stringify :: "json \<Rightarrow> string" where
  "JSON_stringify JNull = ''null''"
| "JSON_stringify (JBool b) = (if b then ''true'' else ''false'')"
| "JSON_stringify (JNum n) = n"
| "JSON_stringify (JStr s) = quote s"
| "JSON_stringify (JArr vs) = ''['' @ join '','' (map JSON_stringify vs) @ '']''"
| "JSON_stringify (JObj ms) =
     ''{'' @ join '','' (map (\<lambda>m. quote (fst m) @ '':'' @ JSON_stringify (snd m)) ms) @ ''}''"

subsection \<open>Values in expressions\<close>

text \<open>
  \<open>ToString\<close> is the text \<open>+=\<close> and a template literal make of a value: an array joins
  its elements with commas, \<open>null\<close> inside an array is empty, an object is
  \<open>[object Object]\<close>.
\<close>

fun ToString :: "json \<Rightarrow> string" where
  "ToString JNull = ''null''"
| "ToString (JBool b) = (if b then ''true'' else ''false'')"
| "ToString (JNum n) = n"
| "ToString (JStr s) = s"
| "ToString (JArr vs) = join '','' (map (\<lambda>v. if v = JNull then [] else ToString v) vs)"
| "ToString (JObj ms) = ''[object Object]''"

datatype jsvalue = Undefined | Value json

definition text_of :: "jsvalue \<Rightarrow> string" where
  "text_of x = (case x of Undefined \<Rightarrow> ''undefined'' | Value v \<Rightarrow> ToString v)"

text \<open>
  \<open>parsed.response\<close>: a property of \<open>null\<close> cannot be read (\<open>None\<close> is the TypeError); a
  value that has no such property gives \<open>undefined\<close>.
\<close>

fun get_response :: "json \<Rightarrow> jsvalue option" where
  "get_response JNull = None"
| "get_response (JObj ms) =
     (case map_of ms ''response'' of None \<Rightarrow> Some Undefined | Some v \<Rightarrow> Some (Value v))"
| "get_response _ = Some Undefined"

section \<open>The chat component\<close>

text \<open>
  The component keeps three state cells: the message log, the text of the input field and
  the loading flag. \<open>new Date()\<close> is read from the environment (\<open>dates\<close>).
\<close>

datatype role = user | assistant

record message =
  role :: role
  content :: string
  timestamp :: nat

record chat =
  messages :: "message list"
  input :: string
  isLoading :: bool

record dates =
  user_date :: nat
  assistant_date :: nat
  error_date :: nat

text \<open>The body of the request, as the component sends it and as the route reads it.\<close>

record request_json =
  contentType :: "string option"
  description :: "string option"

text \<open>
  What the transport does is given from outside. \<open>fetch\<close> has not settled, rejects, or
  resolves with a response whose body has a reader or none. The reader's successive
  \<open>read()\<close> calls give bytes, the end of the stream, or a rejection; when the list of
  results is used up the next \<open>read()\<close> has not settled and the loop waits.
\<close>

datatype read_result = Chunk string | Finished | Broken

datatype fetch_result = Unsettled | Rejected | Resolved "read_result list option"

subsection \<open>One line of the response\<close>

text \<open>
  The function given to \<open>setMessages\<close> for a parsed line. React applies such functions one
  after the other to the latest state, each once. \<open>None\<close> stands for the TypeError of
  reading \<open>role\<close> of no message or \<open>response\<close> of \<open>null\<close>: the log is then not changed
  by the line.
\<close>

definition append_response :: "json \<Rightarrow> message list \<Rightarrow> message list option" where
  "append_response parsed prev =
     (case rev prev of
        [] \<Rightarrow> None
      | lastMessage # earlier \<Rightarrow>
          if role lastMessage = assistant then
            (case get_response parsed of
               None \<Rightarrow> None
             | Some r \<Rightarrow>
                 Some (rev earlier @ [lastMessage\<lparr>content := content lastMessage @ text_of r\<rparr>]))
          else Some prev)"

definition apply_line :: "message list \<Rightarrow> string \<Rightarrow> message list" where
  "apply_line msgs line =
     (if trim line = [] then msgs
      else
        (case JSON_parse line of
           None \<Rightarrow> msgs
         | Some parsed \<Rightarrow>
             (case append_response parsed msgs of
                None \<Rightarrow> msgs
              | Some msgs' \<Rightarrow> msgs')))"

definition apply_chunk :: "message list \<Rightarrow> string \<Rightarrow> message list" where
  "apply_chunk msgs bytes = foldl apply_line msgs (split_newline (TextDecoder_decode bytes))"

subsection \<open>The read loop and \<open>handleSubmit\<close>\<close>

datatype loop_end = Ended | Threw | Waiting

fun read_loop :: "message list \<Rightarrow> read_result list \<Rightarrow> loop_end \<times> message list" where
  "read_loop msgs [] = (Waiting, msgs)"
| "read_loop msgs (Finished # rs) = (Ended, msgs)"
| "read_loop msgs (Broken # rs) = (Threw, msgs)"
| "read_loop msgs (Chunk bytes # rs) = read_loop (apply_chunk msgs bytes) rs"

datatype completion = Returned | Suspended

definition apology :: string where
  "apology = ''Sorry, I encountered an error while getting suggestions.''"

definition catch_error :: "dates \<Rightarrow> chat \<Rightarrow> chat" where
  "catch_error now st =
     st\<lparr>messages :=
          messages st @ [\<lparr>role = assistant, content = apology, timestamp = error_date now\<rparr>]\<rparr>"

definition finally_clause :: "chat \<Rightarrow> chat" where
  "finally_clause st = st\<lparr>isLoading := False\<rparr>"

text \<open>
  \<open>handleSubmit\<close> returns a promise of no value. The model gives \<open>Returned\<close> when the
  function has run to its end and \<open>Suspended\<close> when it waits at an \<open>await\<close> that has not
  settled, with the state as it then is.
\<close>

definition handleSubmit ::
  "string \<Rightarrow> dates \<Rightarrow> (request_json \<Rightarrow> fetch_result) \<Rightarrow> chat \<Rightarrow> completion \<times> chat" where
  "handleSubmit content_type now fetch st =
     (if trim (input st) = [] \<or> isLoading st then (Returned, st)
      else
        let userMessage = \<lparr>role = user, content = input st, timestamp = user_date now\<rparr>;
            st1 = st\<lparr>messages := messages st @ [userMessage], input := [], isLoading := True\<rparr>
        in case fetch \<lparr>contentType = Some content_type, description = Some (input st)\<rparr> of
             Unsettled \<Rightarrow> (Suspended, st1)
           | Rejected \<Rightarrow> (Returned, finally_clause (catch_error now st1))
           | Resolved body \<Rightarrow>
               let assistantMessage =
                     \<lparr>role = assistant, content = [], timestamp = assistant_date now\<rparr>;
                   st2 = st1\<lparr>messages := messages st1 @ [assistantMessage]\<rparr>
               in case body of
                    None \<Rightarrow> (Returned, finally_clause (catch_error now st2))
                  | Some reads \<Rightarrow>
                      (case read_loop (messages st2) reads of
                         (Waiting, ms) \<Rightarrow> (Suspended, st2\<lparr>messages := ms\<rparr>)
                       | (Ended, ms) \<Rightarrow> (Returned, finally_clause (st2\<lparr>messages := ms\<rparr>))
                       | (Threw, ms) \<Rightarrow>
                           (Returned, finally_clause (catch_error now (st2\<lparr>messages := ms\<rparr>)))))"

section \<open>OllamaService\<close>

record sampling =
  temperature :: "rat option"
  top_p :: "rat option"
  top_k :: "rat option"

record OllamaRequestParams =
  model :: string
  prompt :: string
  stream :: "bool option"
  context' :: "nat list option"
  options :: "sampling option"

record OllamaResponse =
  response_model :: string
  created_at :: string
  response :: string
  response_context :: "nat list option"

record OllamaService =
  baseUrl :: string
  service_model :: string
  abortController :: "nat option"

text \<open>
  The process that holds the service: the service object, the abort controllers made so
  far (\<open>abortController\<close> names one by its place; the entry says whether it was aborted), and
  the requests sent to Ollama, with their address.
\<close>

record server =
  service :: OllamaService
  controllers :: "bool list"
  posted :: "(string \<times> OllamaRequestParams) list"

definition constructor :: "string \<Rightarrow> string \<Rightarrow> OllamaService" where
  "constructor url name = \<lparr>baseUrl = url, service_model = name, abortController = None\<rparr>"

definition aborted :: "server \<Rightarrow> nat \<Rightarrow> bool" where
  "aborted sv c = (c < length (controllers sv) \<and> controllers sv ! c)"

definition stopStream :: "server \<Rightarrow> server" where
  "stopStream sv =
     (case abortController (service sv) of
        None \<Rightarrow> sv
      | Some c \<Rightarrow>
          sv\<lparr>controllers := (controllers sv)[c := True],
             service := (service sv)\<lparr>abortController := None\<rparr>\<rparr>)"

text \<open>
  Ollama is given from outside: its answer to a request that does not stream (\<open>None\<close> when
  \<open>axios.post\<close> throws), and for a streaming request what \<open>fetch\<close> and the reader do.
  \<open>Stop\<close> is a call of \<open>stopStream\<close> by other code while \<open>chatStream\<close> waits for a read;
  \<open>Interrupted\<close> is such a call while it waits for \<open>fetch\<close>.
\<close>

datatype event = Stop | Read read_result

datatype stream_fetch =
  StreamUnsettled | Interrupted | StreamRejected | StreamResolved "event list option"

record upstream =
  generate :: "OllamaRequestParams \<Rightarrow> OllamaResponse option"
  generate_stream :: "OllamaRequestParams \<Rightarrow> stream_fetch"

definition request_body :: "server \<Rightarrow> string \<Rightarrow> nat list option \<Rightarrow> bool \<Rightarrow> OllamaRequestParams" where
  "request_body sv p ctx streaming =
     \<lparr>model = service_model (service sv), prompt = p, stream = Some streaming, context' = ctx,
      options = Some \<lparr>temperature = Some (7 / 10), top_p = Some (9 / 10), top_k = None\<rparr>\<rparr>"

definition post :: "OllamaRequestParams \<Rightarrow> server \<Rightarrow> server" where
  "post body sv = sv\<lparr>posted := posted sv @ [(baseUrl (service sv) @ ''/api/generate'', body)]\<rparr>"

definition chat ::
  "upstream \<Rightarrow> string \<Rightarrow> nat list option \<Rightarrow> server \<Rightarrow> (string + OllamaResponse) \<times> server" where
  "chat up p ctx sv =
     (let body = request_body sv p ctx False
      in case generate up body of
           None \<Rightarrow> (Inl ''Failed to get response from Ollama'', post body sv)
         | Some data \<Rightarrow> (Inr data, post body sv))"

subsection \<open>\<open>chatStream\<close>\<close>

text \<open>
  The callback is called with \<open>parsed.response\<close> for every line that parses; the model
  returns the values it was called with, in order. A line whose value is \<open>null\<close> throws
  inside the \<open>try\<close> and is passed over like a line that does not parse.
\<close>

definition deliver_line :: "string \<Rightarrow> jsvalue list" where
  "deliver_line line =
     (if trim line = [] then []
      else
        (case JSON_parse line of
           None \<Rightarrow> []
         | Some parsed \<Rightarrow> (case get_response parsed of None \<Rightarrow> [] | Some r \<Rightarrow> [r])))"

definition deliver_chunk :: "string \<Rightarrow> jsvalue list" where
  "deliver_chunk bytes = concat (map deliver_line (split_newline (TextDecoder_decode bytes)))"

text \<open>
  How a call ends: \<open>Completed\<close> after \<open>onComplete\<close>, \<open>Aborted\<close> by the silent return on an
  AbortError, \<open>Failed\<close> after \<open>onError\<close> with the error thrown on, \<open>Pending\<close> while an
  \<open>await\<close> has not settled. An abort rejects the pending \<open>fetch\<close> or \<open>read()\<close>.
\<close>

datatype stream_end = Completed | Aborted | Failed | Pending

fun stream_loop ::
  "nat \<Rightarrow> server \<Rightarrow> jsvalue list \<Rightarrow> event list \<Rightarrow> stream_end \<times> jsvalue list \<times> server" where
  "stream_loop c sv out [] = (Pending, out, sv)"
| "stream_loop c sv out (Stop # es) =
     (let sv' = stopStream sv
      in if aborted sv' c then (Aborted, out, sv') else stream_loop c sv' out es)"
| "stream_loop c sv out (Read Finished # es) = (Completed, out, sv)"
| "stream_loop c sv out (Read Broken # es) = (Failed, out, sv)"
| "stream_loop c sv out (Read (Chunk bytes) # es) =
     stream_loop c sv (out @ deliver_chunk bytes) es"

definition release :: "server \<Rightarrow> server" where
  "release sv = sv\<lparr>service := (service sv)\<lparr>abortController := None\<rparr>\<rparr>"

definition chatStream ::
  "upstream \<Rightarrow> string \<Rightarrow> nat list option \<Rightarrow> server \<Rightarrow> stream_end \<times> jsvalue list \<times> server" where
  "chatStream up p ctx sv =
     (let c = length (controllers sv);
          sv0 = sv\<lparr>controllers := controllers sv @ [False],
                  service := (service sv)\<lparr>abortController := Some c\<rparr>\<rparr>;
          body = request_body sv0 p ctx True;
          sv1 = post body sv0
      in case generate_stream up body of
           StreamUnsettled \<Rightarrow> (Pending, [], sv1)
         | Interrupted \<Rightarrow>
             (let sv2 = stopStream sv1
              in if aborted sv2 c then (Aborted, [], release sv2) else (Pending, [], sv2))
         | StreamRejected \<Rightarrow> (Failed, [], release sv1)
         | StreamResolved None \<Rightarrow> (Failed, [], release sv1)
         | StreamResolved (Some events) \<Rightarrow>
             (case stream_loop c sv1 [] events of
                (Pending, out, sv2) \<Rightarrow> (Pending, out, sv2)
              | (e, out, sv2) \<Rightarrow> (e, out, release sv2)))"

subsection \<open>\<open>getContentTypePrompt\<close> and \<open>getH5PContentSuggestions\<close>\<close>

definition contentTypePrompts :: "(string \<times> string) list" where
  "contentTypePrompts =
     [(''H5P.InteractiveVideo'',
       ''Consider: timestamps for interactions, types of questions to ask at each point, visual cues, and branching scenarios.''),
      (''H5P.Course'',
       ''Structure your course with: main topics, subtopics, learning objectives, assessment criteria, and progression rules.''),
      (''H5P.QuestionSet'',
       ''Include variety in question types: multiple choice, true/false, fill in the blanks, matching, and drag-and-drop.''),
      (''H5P.InteractiveBook'',
       ''Plan chapters with: multimedia content, interactive elements, self-assessment, and navigation structure.''),
      (''H5P.Timeline'',
       ''Organize events with: dates, descriptions, media elements, and connections between events.''),
      (''H5P.BranchingScenario'',
       ''Design decision trees with: multiple paths, consequences, feedback, and learning outcomes.'')]"

text \<open>
  \<open>contentTypePrompts[contentType]\<close> reads a property of an object literal: one of its own
  six, or else one the object inherits from \<open>Object.prototype\<close> (a function, or for
  \<open>__proto__\<close> the prototype itself), or else \<open>undefined\<close>.
\<close>

definition Object_prototype :: "string list" where
  "Object_prototype =
     [''constructor'', ''__defineGetter__'', ''__defineSetter__'', ''hasOwnProperty'',
      ''__lookupGetter__'', ''__lookupSetter__'', ''isPrototypeOf'', ''propertyIsEnumerable'',
      ''toString'', ''valueOf'', ''__proto__'', ''toLocaleString'']"

datatype property = Text string | Inherited string | Absent

definition lookup :: "(string \<times> string) list \<Rightarrow> string \<Rightarrow> property" where
  "lookup obj key =
     (case map_of obj key of
        Some s \<Rightarrow> Text s
      | None \<Rightarrow> if key \<in> set Object_prototype then Inherited key else Absent)"

definition truthy :: "property \<Rightarrow> bool" where
  "truthy p = (case p of Text s \<Rightarrow> s \<noteq> [] | Inherited k \<Rightarrow> True | Absent \<Rightarrow> False)"

definition fallback :: string where
  "fallback = ''Consider the best way to present this content interactively.''"

definition getContentTypePrompt :: "string \<Rightarrow> property" where
  "getContentTypePrompt content_type =
     (let found = lookup contentTypePrompts content_type
      in if truthy found then found else Text fallback)"

text \<open>The text a template literal makes of the value (of a built-in function, as V8 prints it).\<close>

definition interpolate :: "property \<Rightarrow> string" where
  "interpolate p =
     (case p of
        Text s \<Rightarrow> s
      | Absent \<Rightarrow> ''undefined''
      | Inherited k \<Rightarrow>
          if k = ''__proto__'' then ''[object Object]''
          else if k = ''constructor'' then ''function Object() { [native code] }''
          else ''function '' @ k @ ''() { [native code] }'')"

definition indent :: string where
  "indent = [CHR 0x0A] @ ''        ''"

definition getH5PContentSuggestions ::
  "upstream \<Rightarrow> string \<Rightarrow> string \<Rightarrow> server \<Rightarrow> (string + string) \<times> server" where
  "getH5PContentSuggestions up content_type desc sv =
     (let typeSpecificPrompt = getContentTypePrompt content_type;
          p = ''As an H5P content creation assistant, help me create '' @ content_type
              @ '' content with the following description: '' @ desc @ ''.''
              @ indent
              @ indent @ interpolate typeSpecificPrompt
              @ indent
              @ indent @ ''Please provide specific suggestions including:''
              @ indent @ ''1. Content Structure''
              @ indent @ ''2. Interactive Elements''
              @ indent @ ''3. Learning Objectives''
              @ indent @ ''4. Assessment Strategies''
              @ indent @ ''5. Technical Implementation Tips''
              @ indent
              @ indent @ ''Format your response in clear sections with bullet points for easy implementation.''
      in case chat up p None sv of
           (Inl e, sv') \<Rightarrow> (Inl e, sv')
         | (Inr r, sv') \<Rightarrow> (Inr (response r), sv'))"

section \<open>The streaming route\<close>

text \<open>
  The reply of the route: a JSON body with a status, or the event stream with the chunks
  written to it and whether it was ended. When \<open>chatStream\<close> throws after chunks were
  written, the headers are sent, \<open>res.status(500).json\<close> throws in its turn and the stream
  is never ended.
\<close>

datatype reply = JsonReply nat string | StreamReply "string list" bool

definition stringify_response :: "jsvalue \<Rightarrow> string" where
  \<open>stringify_response chunk =
     (case chunk of
        Undefined \<Rightarrow> ''{}''
      | Value v \<Rightarrow> ''{"response":'' @ JSON_stringify v @ ''}'')\<close>

definition push :: "jsvalue \<Rightarrow> string" where
  "push chunk = stringify_response chunk @ [CHR 0x0A]"

definition stream_route :: "upstream \<Rightarrow> request_json \<Rightarrow> server \<Rightarrow> reply \<times> server" where
  \<open>stream_route up body sv =
     (case (contentType body, description body) of
        (Some content_type, Some desc) \<Rightarrow>
          if content_type = [] \<or> desc = [] then
            (JsonReply 400 ''{"error":"Content type and description are required"}'', sv)
          else
            (case getH5PContentSuggestions up content_type desc sv of
               (Inl e, sv1) \<Rightarrow>
                 (JsonReply 500 ''{"error":"Failed to stream content suggestions"}'', sv1)
             | (Inr suggestions, sv1) \<Rightarrow>
                 (case chatStream up suggestions None sv1 of
                    (Completed, out, sv2) \<Rightarrow> (StreamReply (map push out) True, sv2)
                  | (Aborted, out, sv2) \<Rightarrow> (StreamReply (map push out) True, sv2)
                  | (Pending, out, sv2) \<Rightarrow> (StreamReply (map push out) False, sv2)
                  | (Failed, out, sv2) \<Rightarrow>
                      if out = [] then
                        (JsonReply 500 ''{"error":"Failed to stream content suggestions"}'', sv2)
                      else (StreamReply (map push out) False, sv2)))
      | _ \<Rightarrow> (JsonReply 400 ''{"error":"Content type and description are required"}'', sv))\<close>

text \<open>
  The reply as the component's \<open>fetch\<close> sees it when every chunk the route writes arrives
  as one read.
\<close>

definition over_the_wire :: "reply \<Rightarrow> fetch_result" where
  "over_the_wire r =
     (case r of
        JsonReply status body \<Rightarrow> Resolved (Some [Chunk body, Finished])
      | StreamReply written ended \<Rightarrow>
          Resolved (Some (map Chunk written @ (if ended then [Finished] else []))))"

section \<open>Notions the properties are stated with\<close>

text \<open>
  Well-formed UTF-8: the bytes of a text that has no surrogate standing alone. The text a
  decoder gives is of this kind.
\<close>

fun well_formed :: "string \<Rightarrow> bool" where
  "well_formed [] = True"
| "well_formed (b # bs) =
     (if of_char b < (0x80::nat) then well_formed bs
      else if between 0xC2 0xDF b then
        (case bs of
           c # cs \<Rightarrow> between 0x80 0xBF c \<and> well_formed cs
         | _ \<Rightarrow> False)
      else if between 0xE0 0xEF b then
        (case bs of
           c # d # ds \<Rightarrow>
             between (lower_boundary b) (upper_boundary b) c \<and> between 0x80 0xBF d
             \<and> well_formed ds
         | _ \<Rightarrow> False)
      else if between 0xF0 0xF4 b then
        (case bs of
           c # d # e # es \<Rightarrow>
             between (lower_boundary b) (upper_boundary b) c \<and> between 0x80 0xBF d
             \<and> between 0x80 0xBF e \<and> well_formed es
         | _ \<Rightarrow> False)
      else False)"

text \<open>No surrogate in three-byte form: what \<open>JSON.stringify\<close> would escape.\<close>

fun plain :: "string \<Rightarrow> bool" where
  "plain [] = True"
| "plain [c] = True"
| "plain (c # d # cs) = ((c = CHR 0xED \<longrightarrow> \<not> between 0xA0 0xBF d) \<and> plain (d # cs))"

text \<open>The line the route writes for a fragment whose text is \<open>d\<close>.\<close>

definition fragment_line :: "string \<Rightarrow> string" where
  "fragment_line d = push (Value (JStr d))"

text \<open>A server that has just started, and a chat with nothing in its log.\<close>

definition fresh_server :: server where
  "fresh_server =
     \<lparr>service = constructor ''http://localhost:11434'' ''llama2'', controllers = [], posted = []\<rparr>"

definition new_chat :: "string \<Rightarrow> chat" where
  "new_chat typed = \<lparr>messages = [], input = typed, isLoading = False\<rparr>"

text \<open>The component's \<open>fetch\<close>, answered by the route in front of a given Ollama.\<close>

definition through_route :: "upstream \<Rightarrow> server \<Rightarrow> request_json \<Rightarrow> fetch_result" where
  "through_route up sv body = over_the_wire (fst (stream_route up body sv))"

text \<open>
  The scenario of the specification: Ollama answers the request that does not stream with
  \<open>answer\<close>, and streams three lines, each in a read of its own, then ends.
\<close>

definition three_lines :: "string list" where
  \<open>three_lines =
     [''{"response":"Struct"}'' @ [CHR 0x0A],
      ''{"response":"ure: "}'' @ [CHR 0x0A],
      ''{"response":"..."}'' @ [CHR 0x0A]]\<close>

definition ollama :: "OllamaResponse \<Rightarrow> upstream" where
  "ollama answer =
     \<lparr>generate = (\<lambda>body. Some answer),
      generate_stream =
        (\<lambda>body. StreamResolved (Some (map (\<lambda>l. Read (Chunk l)) three_lines @ [Read Finished])))\<rparr>"

definition an_answer :: OllamaResponse where
  "an_answer =
     \<lparr>response_model = ''llama2'', created_at = ''2024-01-01T00:00:00Z'',
      response = ''1. Content Structure'', response_context = None\<rparr>"

definition noon :: dates where
  "noon = \<lparr>user_date = 1, assistant_date = 2, error_date = 3\<rparr>"

section \<open>Facts about the text functions\<close>

subsection \<open>Decoding, splitting and trimming\<close>

lemma utf8_decode_well_formed: "well_formed s \<Longrightarrow> utf8_decode s = s"
proof (induction s rule: well_formed.induct)
  case 1
  show ?case by simp
next
  case (2 b bs)
  consider (one) "of_char b < (0x80::nat)"
    | (two) "\<not> of_char b < (0x80::nat)" "between 0xC2 0xDF b"
    | (three) "\<not> of_char b < (0x80::nat)" "\<not> between 0xC2 0xDF b" "between 0xE0 0xEF b"
    | (four) "\<not> of_char b < (0x80::nat)" "\<not> between 0xC2 0xDF b" "\<not> between 0xE0 0xEF b"
        "between 0xF0 0xF4 b"
    | (none) "\<not> of_char b < (0x80::nat)" "\<not> between 0xC2 0xDF b" "\<not> between 0xE0 0xEF b"
        "\<not> between 0xF0 0xF4 b"
    by blast
  then show ?case
  proof cases
    case one
    with 2 show ?thesis by simp
  next
    case two
    with "2.prems" obtain c cs where bs: "bs = c # cs" and c: "between 0x80 0xBF c"
      and cs: "well_formed cs"
      by (cases bs) auto
    from "2.IH"(2) [OF two bs] cs have "utf8_decode cs = cs" by simp
    with two bs c show ?thesis by simp
  next
    case three
    with "2.prems" obtain c d ds where bs: "bs = c # d # ds"
      and c: "between (lower_boundary b) (upper_boundary b) c" and d: "between 0x80 0xBF d"
      and ds: "well_formed ds"
      by (cases bs; cases "tl bs") auto
    from "2.IH"(3) [OF three bs] ds have "utf8_decode ds = ds" by simp
    with three bs c d show ?thesis by simp
  next
    case four
    with "2.prems" obtain c d e es where bs: "bs = c # d # e # es"
      and c: "between (lower_boundary b) (upper_boundary b) c" and d: "between 0x80 0xBF d"
      and e: "between 0x80 0xBF e" and es: "well_formed es"
      by (cases bs; cases "tl bs"; cases "tl (tl bs)") auto
    from "2.IH"(4) [OF four bs] es have "utf8_decode es = es" by simp
    with four bs c d e show ?thesis by simp
  next
    case none
    with "2.prems" show ?thesis by simp
  qed
qed

lemma well_formed_append: "well_formed a \<Longrightarrow> well_formed b \<Longrightarrow> well_formed (a @ b)"
proof (induction a rule: well_formed.induct)
  case 1
  then show ?case by simp
next
  case (2 c cs)
  consider (one) "of_char c < (0x80::nat)"
    | (two) "\<not> of_char c < (0x80::nat)" "between 0xC2 0xDF c"
    | (three) "\<not> of_char c < (0x80::nat)" "\<not> between 0xC2 0xDF c" "between 0xE0 0xEF c"
    | (four) "\<not> of_char c < (0x80::nat)" "\<not> between 0xC2 0xDF c" "\<not> between 0xE0 0xEF c"
        "between 0xF0 0xF4 c"
    | (none) "\<not> of_char c < (0x80::nat)" "\<not> between 0xC2 0xDF c" "\<not> between 0xE0 0xEF c"
        "\<not> between 0xF0 0xF4 c"
    by blast
  then show ?case
  proof cases
    case one
    with 2 show ?thesis by simp
  next
    case two
    with "2.prems" obtain d ds where cs: "cs = d # ds" and d: "between 0x80 0xBF d"
      and ds: "well_formed ds"
      by (cases cs) auto
    from "2.IH"(2) [OF two cs] ds "2.prems"(2) have "well_formed (ds @ b)" by simp
    with two cs d show ?thesis by simp
  next
    case three
    with "2.prems" obtain d e es where cs: "cs = d # e # es"
      and d: "between (lower_boundary c) (upper_boundary c) d" and e: "between 0x80 0xBF e"
      and es: "well_formed es"
      by (cases cs; cases "tl cs") auto
    from "2.IH"(3) [OF three cs] es "2.prems"(2) have "well_formed (es @ b)" by simp
    with three cs d e show ?thesis by simp
  next
    case four
    with "2.prems" obtain d e f fs where cs: "cs = d # e # f # fs"
      and d: "between (lower_boundary c) (upper_boundary c) d" and e: "between 0x80 0xBF e"
      and f: "between 0x80 0xBF f" and fs: "well_formed fs"
      by (cases cs; cases "tl cs"; cases "tl (tl cs)") auto
    from "2.IH"(4) [OF four cs] fs "2.prems"(2) have "well_formed (fs @ b)" by simp
    with four cs d e f show ?thesis by simp
  next
    case none
    with "2.prems" show ?thesis by simp
  qed
qed

lemma well_formed_concat: "(\<And>x. x \<in> set xs \<Longrightarrow> well_formed x) \<Longrightarrow> well_formed (concat xs)"
  by (induction xs) (simp_all add: well_formed_append)

lemma split_from_line:
  "CHR 0x0A \<notin> set a \<Longrightarrow> split_from seg (a @ CHR 0x0A # b) = (seg @ a) # split_from [] b"
  by (induction a arbitrary: seg) auto

lemma split_newline_lines:
  "(\<And>l. l \<in> set ls \<Longrightarrow> CHR 0x0A \<notin> set l) \<Longrightarrow>
     split_newline (concat (map (\<lambda>l. l @ [CHR 0x0A]) ls)) = ls @ [[]]"
  unfolding split_newline_def by (induction ls) (simp_all add: split_from_line)

lemma strip_keeps:
  "c \<in> set s \<Longrightarrow> \<forall>w \<in> set ws. c \<notin> set w \<Longrightarrow> c \<in> set (strip ws s)"
proof (induction ws s rule: strip.induct)
  case (1 ws s)
  show ?case
  proof (cases "filter (starts_with s) ws")
    case Nil
    with 1(2) show ?thesis by (subst strip.simps) simp
  next
    case (Cons w rest)
    then have w: "w \<in> set ws" and sw: "starts_with s w"
      by (metis filter_eq_ConsD in_set_conv_decomp, metis filter_eq_ConsD)
    from sw have "s = w @ drop (length w) s"
      by (metis append_take_drop_id starts_with_def)
    with 1(2) 1(3) w have "c \<in> set (drop (length w) s)"
      by (metis Un_iff set_append)
    from 1(1) [OF Cons this 1(3)] Cons show ?thesis
      by (subst strip.simps) simp
  qed
qed

lemma char_of_byte: "n < 256 \<Longrightarrow> (char_of (n::nat) = c) = (n = of_char c)"
  by (auto simp: char_of_eq_iff take_bit_eq_mod)

lemma white_space_bytes:
  "map utf8_encode white_space =
     [[CHR 0x09], [CHR 0x0A], [CHR 0x0B], [CHR 0x0C], [CHR 0x0D], [CHR 0x20], [CHR 0xC2, CHR 0xA0],
      [CHR 0xE1, CHR 0x9A, CHR 0x80],
      [CHR 0xE2, CHR 0x80, CHR 0x80], [CHR 0xE2, CHR 0x80, CHR 0x81], [CHR 0xE2, CHR 0x80, CHR 0x82],
      [CHR 0xE2, CHR 0x80, CHR 0x83], [CHR 0xE2, CHR 0x80, CHR 0x84], [CHR 0xE2, CHR 0x80, CHR 0x85],
      [CHR 0xE2, CHR 0x80, CHR 0x86], [CHR 0xE2, CHR 0x80, CHR 0x87], [CHR 0xE2, CHR 0x80, CHR 0x88],
      [CHR 0xE2, CHR 0x80, CHR 0x89], [CHR 0xE2, CHR 0x80, CHR 0x8A],
      [CHR 0xE2, CHR 0x80, CHR 0xA8], [CHR 0xE2, CHR 0x80, CHR 0xA9], [CHR 0xE2, CHR 0x80, CHR 0xAF],
      [CHR 0xE2, CHR 0x81, CHR 0x9F], [CHR 0xE3, CHR 0x80, CHR 0x80], [CHR 0xEF, CHR 0xBB, CHR 0xBF]]"
  by (simp add: white_space_def utf8_encode_def char_of_byte)

lemma trim_keeps_brace: "CHR ''{'' \<in> set s \<Longrightarrow> trim s \<noteq> []"
proof -
  assume a: "CHR ''{'' \<in> set s"
  have 1: "\<forall>w \<in> set (map utf8_encode white_space). CHR ''{'' \<notin> set w"
    unfolding white_space_bytes by simp
  then have 2: "\<forall>w \<in> set (map (rev \<circ> utf8_encode) white_space). CHR ''{'' \<notin> set w"
    by simp
  from strip_keeps [OF a 1] have "CHR ''{'' \<in> set (trimStart s)"
    by (simp add: trimStart_def)
  then have "CHR ''{'' \<in> set (rev (trimStart s))" by simp
  from strip_keeps [OF this 2] have "CHR ''{'' \<in> set (trimEnd (trimStart s))"
    by (simp add: trimEnd_def)
  then show ?thesis by (auto simp: trim_def)
qed

lemma strip_empty: "strip ws [] = []"
proof -
  have "starts_with [] = (\<lambda>w. False)"
    by (rule ext) (auto simp: starts_with_def)
  then show ?thesis by (subst strip.simps) simp
qed

lemma trim_empty: "trim [] = []"
  by (simp add: trim_def trimStart_def trimEnd_def strip_empty)

subsection \<open>Quoting a string and reading it back\<close>

lemma hex_char_code: "k < 16 \<Longrightarrow> of_char (hex_char k) = (if k < 10 then 0x30 + k else 0x57 + k)"
  by (simp add: hex_char_def)

lemma hex_digit_hex_char: "k < 16 \<Longrightarrow> hex_digit (hex_char k) = Some k"
  by (simp add: hex_digit_def hex_char_code Let_def)

lemma hex4_digits:
  assumes "n < 0x10000"
  shows "hex4 (hex_char (n div 0x1000)) (hex_char (n div 0x100 mod 0x10))
           (hex_char (n div 0x10 mod 0x10)) (hex_char (n mod 0x10)) = Some n"
proof -
  from assms have top: "n div 0x1000 < 16" by simp
  have 1: "n div 0x1000 * 16 + n div 0x100 mod 0x10 = n div 0x100"
    using div_mult_mod_eq [of "n div 0x100" 16] by (simp add: div_mult2_eq [symmetric])
  have 2: "n div 0x100 * 16 + n div 0x10 mod 0x10 = n div 0x10"
    using div_mult_mod_eq [of "n div 0x10" 16] by (simp add: div_mult2_eq [symmetric])
  have 3: "n div 0x10 * 16 + n mod 0x10 = n"
    using div_mult_mod_eq [of n 16] by simp
  from top show ?thesis
    by (simp add: hex4_def hex_digit_hex_char 1 2 3)
qed

lemma string_body_unicode_escape:
  "n < 0x10000 \<Longrightarrow>
     string_body (unicode_escape n @ rest) =
       (case string_body rest of None \<Rightarrow> None | Some (ps, r) \<Rightarrow> Some (Esc n # ps, r))"
  by (simp add: unicode_escape_def hex4_digits)

lemma assemble_Esc:
  "h < 0xD800 \<Longrightarrow> assemble (Esc h # ps) = utf8_encode h @ assemble ps"
  by (cases ps rule: assemble.cases) simp_all

lemma utf8_encode_byte: "of_char c < (0x80::nat) \<Longrightarrow> utf8_encode (of_char c) = [c]"
  by (simp add: utf8_encode_def)

lemma plain_tl: "plain (c # cs) \<Longrightarrow> plain cs"
  by (cases cs) simp_all

lemma quote_body_lead:
  "\<nexists>d e rest. cs = d # e # rest \<and> between 0xA0 0xBF d \<and> between 0x80 0xBF e
   \<Longrightarrow> quote_body (CHR 0xED # cs) = CHR 0xED # quote_body cs"
  by (subst quote_body.simps) (auto simp del: quote_body.simps split: list.split)
lemma quote_body_ED:
  "\<not> between 0xA0 0xBF d \<Longrightarrow> quote_body (CHR 0xED # d # cs) = CHR 0xED # quote_body (d # cs)"
  by (rule quote_body_lead) simp

lemma short_ascii:
  "c \<in> {CHR 0x08, CHR 0x09, CHR 0x0A, CHR 0x0C, CHR 0x0D, CHR 0x22, CHR 0x5C} \<Longrightarrow>
     of_char c < (0x80::nat)"
  by (elim insertE emptyE) simp_all

lemma string_body_short:
  "c \<in> {CHR 0x08, CHR 0x09, CHR 0x0A, CHR 0x0C, CHR 0x0D, CHR 0x22, CHR 0x5C} \<Longrightarrow>
   string_body (quote_body cs @ rest) = Some (ps, r) \<Longrightarrow>
   string_body (quote_body (c # cs) @ rest) = Some (Esc (of_char c) # ps, r)"
  by (elim insertE emptyE; hypsubst; simp add: simple_escape_def)

lemma string_body_quote_body:
  "plain d \<Longrightarrow>
     \<exists>ps. string_body (quote_body d @ CHR 0x22 # rest) = Some (ps, rest) \<and> assemble ps = d"
proof (induction d)
  case Nil
  show ?case by simp
next
  case (Cons c cs)
  from Cons.prems have "plain cs" by (rule plain_tl)
  with Cons.IH obtain ps where ps: "string_body (quote_body cs @ CHR 0x22 # rest) = Some (ps, rest)"
    and asm: "assemble ps = cs"
    by blast
  consider (short) "c \<in> {CHR 0x08, CHR 0x09, CHR 0x0A, CHR 0x0C, CHR 0x0D, CHR 0x22, CHR 0x5C}"
    | (control) "c \<notin> {CHR 0x08, CHR 0x09, CHR 0x0A, CHR 0x0C, CHR 0x0D, CHR 0x22, CHR 0x5C}"
        "of_char c < (0x20::nat)"
    | (lead) "c = CHR 0xED"
    | (other) "c \<notin> {CHR 0x08, CHR 0x09, CHR 0x0A, CHR 0x0C, CHR 0x0D, CHR 0x22, CHR 0x5C}"
        "\<not> of_char c < (0x20::nat)" "c \<noteq> CHR 0xED"
    by blast
  then show ?case
  proof cases
    case short
    from string_body_short [OF short ps]
    have "string_body (quote_body (c # cs) @ CHR 0x22 # rest) = Some (Esc (of_char c) # ps, rest)" .
    moreover from short_ascii [OF short] have "assemble (Esc (of_char c) # ps) = c # cs"
      using asm by (simp add: assemble_Esc utf8_encode_byte)
    ultimately show ?thesis by blast
  next
    case control
    then have "quote_body (c # cs) = unicode_escape (of_char c) @ quote_body cs"
      by simp
    with control ps
    have "string_body (quote_body (c # cs) @ CHR 0x22 # rest) = Some (Esc (of_char c) # ps, rest)"
      by (simp add: string_body_unicode_escape)
    moreover from control have "assemble (Esc (of_char c) # ps) = c # cs"
      using asm by (simp add: assemble_Esc utf8_encode_byte)
    ultimately show ?thesis by blast
  next
    case lead
    have q: "quote_body (c # cs) = c # quote_body cs"
    proof (cases cs)
      case Nil
      with lead show ?thesis by simp
    next
      case (Cons d ds)
      with Cons.prems lead have "\<not> between 0xA0 0xBF d" by simp
      from quote_body_ED [OF this] lead Cons show ?thesis by (simp del: quote_body.simps)
    qed
    with lead ps have "string_body (quote_body (c # cs) @ CHR 0x22 # rest) = Some (Lit c # ps, rest)"
      by simp
    with asm show ?thesis by simp
  next
    case other
    then have "quote_body (c # cs) = c # quote_body cs" by simp
    with other ps have "string_body (quote_body (c # cs) @ CHR 0x22 # rest) = Some (Lit c # ps, rest)"
      by simp
    with asm show ?thesis by simp
  qed
qed

lemma unicode_escape_ascii:
  assumes "n < 0x10000" and "x \<in> set (unicode_escape n)"
  shows "(0x30::nat) \<le> of_char x \<and> of_char x < (0x80::nat)"
proof -
  from assms(1) have "n div 0x1000 < 16" by simp
  moreover have "\<And>k. k < 16 \<Longrightarrow> (0x30::nat) \<le> of_char (hex_char k) \<and> of_char (hex_char k) < (0x80::nat)"
    by (simp add: hex_char_code)
  ultimately show ?thesis
    using assms(2) by (auto simp: unicode_escape_def)
qed

lemma unicode_escape_no_newline:
  assumes "n < 0x10000"
  shows "\<forall>x \<in> set (unicode_escape n). x \<noteq> CHR 0x0A"
proof (intro ballI notI)
  fix x
  assume "x \<in> set (unicode_escape n)" and "x = CHR 0x0A"
  with unicode_escape_ascii [OF assms, of x] show False by simp
qed

lemma surrogate_code:
  assumes "between 0xA0 0xBF d" and "between 0x80 0xBF e"
  shows "0xD000 + (of_char d - 0x80) * 0x40 + (of_char e - 0x80) < (0x10000::nat)"
  using assms unfolding between_def by arith

text \<open>One step of \<open>quote_body\<close>: what it writes for the head, and where it goes on.\<close>

lemma quote_body_step:
  "\<exists>X rest. quote_body (c # cs) = X @ quote_body rest \<and> length rest \<le> length cs
     \<and> (\<forall>x \<in> set X. x \<noteq> CHR 0x0A)"
proof -
  consider (short) "c \<in> {CHR 0x08, CHR 0x09, CHR 0x0A, CHR 0x0C, CHR 0x0D, CHR 0x22, CHR 0x5C}"
    | (control) "c \<notin> {CHR 0x08, CHR 0x09, CHR 0x0A, CHR 0x0C, CHR 0x0D, CHR 0x22, CHR 0x5C}"
        "of_char c < (0x20::nat)"
    | (lead) "c = CHR 0xED"
    | (other) "c \<notin> {CHR 0x08, CHR 0x09, CHR 0x0A, CHR 0x0C, CHR 0x0D, CHR 0x22, CHR 0x5C}"
        "\<not> of_char c < (0x20::nat)" "c \<noteq> CHR 0xED"
    by blast
  then show ?thesis
  proof cases
    case short
    then obtain x where "quote_body (c # cs) = [CHR 0x5C, x] @ quote_body cs" and "x \<noteq> CHR 0x0A"
      by (elim insertE emptyE; hypsubst; simp)
    then show ?thesis
      by (intro exI [of _ "[CHR 0x5C, x]"] exI [of _ cs]) simp
  next
    case control
    then have "quote_body (c # cs) = unicode_escape (of_char c) @ quote_body cs"
      by simp
    moreover from control(2) have "\<forall>x \<in> set (unicode_escape (of_char c)). x \<noteq> CHR 0x0A"
      by (intro unicode_escape_no_newline) simp
    ultimately show ?thesis
      by (intro exI [of _ "unicode_escape (of_char c)"] exI [of _ cs]) simp
  next
    case lead
    show ?thesis
    proof (cases "\<exists>d e rest. cs = d # e # rest \<and> between 0xA0 0xBF d \<and> between 0x80 0xBF e")
      case True
      then obtain d e rest where cs: "cs = d # e # rest" and d: "between 0xA0 0xBF d"
        and e: "between 0x80 0xBF e"
        by blast
      let ?n = "0xD000 + (of_char d - 0x80) * 0x40 + (of_char e - 0x80) :: nat"
      from lead cs d e have "quote_body (c # cs) = unicode_escape ?n @ quote_body rest"
        by simp
      moreover have "\<forall>x \<in> set (unicode_escape ?n). x \<noteq> CHR 0x0A"
        by (rule unicode_escape_no_newline [OF surrogate_code [OF d e]])
      ultimately show ?thesis
        using cs by (intro exI [of _ "unicode_escape ?n"] exI [of _ rest]) simp
    next
      case False
      with lead have "quote_body (c # cs) = [c] @ quote_body cs"
        by (simp add: quote_body_lead del: quote_body.simps)
      with lead show ?thesis
        by (intro exI [of _ "[c]"] exI [of _ cs]) simp
    qed
  next
    case other
    then have "quote_body (c # cs) = [c] @ quote_body cs" by simp
    moreover from other have "c \<noteq> CHR 0x0A" by simp
    ultimately show ?thesis
      by (intro exI [of _ "[c]"] exI [of _ cs]) simp
  qed
qed

lemma quote_body_no_newline: "CHR 0x0A \<notin> set (quote_body d)"
proof (induction "length d" arbitrary: d rule: less_induct)
  case less
  show ?case
  proof (cases d)
    case Nil
    then show ?thesis by simp
  next
    case (Cons c cs)
    from quote_body_step [of c cs] obtain X rest
      where q: "quote_body (c # cs) = X @ quote_body rest" and l: "length rest \<le> length cs"
        and X: "\<forall>x \<in> set X. x \<noteq> CHR 0x0A"
      by blast
    from l Cons have "length rest < length d" by simp
    from less [OF this] X q Cons show ?thesis by auto
  qed
qed

lemma plain_Cons: "c \<noteq> CHR 0xED \<Longrightarrow> plain cs \<Longrightarrow> plain (c # cs)"
  by (cases cs) simp_all

lemma continuation_not_lead: "between lo 0xBF c \<Longrightarrow> c \<noteq> CHR 0xED"
  by (auto simp: between_def)

lemma continuation_high: "between 0x80 hi c \<Longrightarrow> (0x80::nat) \<le> of_char c"
  by (simp add: between_def)

lemma quote_body_high:
  assumes "(0x80::nat) \<le> of_char c" and "c \<noteq> CHR 0xED"
  shows "quote_body (c # cs) = c # quote_body cs"
proof -
  from assms(1) short_ascii [of c]
  have "c \<notin> {CHR 0x08, CHR 0x09, CHR 0x0A, CHR 0x0C, CHR 0x0D, CHR 0x22, CHR 0x5C}"
    by fastforce
  moreover from assms(1) have "\<not> of_char c < (0x20::nat)" by simp
  ultimately show ?thesis using assms(2) by simp
qed

lemma quote_body_continuation:
  "between 0x80 0xBF c \<Longrightarrow> quote_body (c # cs) = c # quote_body cs"
  by (rule quote_body_high) (auto simp: between_def)

text \<open>The second byte of a well-formed sequence: in range, and no surrogate after \<open>0xED\<close>.\<close>

lemma second_byte:
  assumes "between (lower_boundary b) (upper_boundary b) c"
  shows "between 0x80 0xBF c" and "b = CHR 0xED \<Longrightarrow> \<not> between 0xA0 0xBF c"
  using assms by (auto simp: between_def lower_boundary_def upper_boundary_def split: if_splits)

lemma well_formed_cases:
  assumes "well_formed (b # bs)"
  obtains (one) "of_char b < (0x80::nat)" "well_formed bs"
    | (two) c cs where "(0x80::nat) \<le> of_char b" "b \<noteq> CHR 0xED" "bs = c # cs"
        "between 0x80 0xBF c" "well_formed cs" "\<And>s. well_formed (b # c # s) = well_formed s"
    | (three) c d ds where "(0x80::nat) \<le> of_char b" "bs = c # d # ds"
        "between (lower_boundary b) (upper_boundary b) c" "between 0x80 0xBF d" "well_formed ds"
        "\<And>s. well_formed (b # c # d # s) = well_formed s"
    | (four) c d e es where "(0x80::nat) \<le> of_char b" "b \<noteq> CHR 0xED" "bs = c # d # e # es"
        "between 0x80 0xBF c" "between 0x80 0xBF d" "between 0x80 0xBF e" "well_formed es"
        "\<And>s. well_formed (b # c # d # e # s) = well_formed s"
proof -
  consider (a) "of_char b < (0x80::nat)"
    | (b) "\<not> of_char b < (0x80::nat)" "between 0xC2 0xDF b"
    | (c) "\<not> of_char b < (0x80::nat)" "\<not> between 0xC2 0xDF b" "between 0xE0 0xEF b"
    | (d) "\<not> of_char b < (0x80::nat)" "\<not> between 0xC2 0xDF b" "\<not> between 0xE0 0xEF b"
        "between 0xF0 0xF4 b"
    | (e) "\<not> of_char b < (0x80::nat)" "\<not> between 0xC2 0xDF b" "\<not> between 0xE0 0xEF b"
        "\<not> between 0xF0 0xF4 b"
    by blast
  then show thesis
  proof cases
    case a
    with assms one show ?thesis by simp
  next
    case b
    with assms obtain c cs where 1: "bs = c # cs" "between 0x80 0xBF c" "well_formed cs"
      by (cases bs) auto
    from b have 2: "b \<noteq> CHR 0xED" by (auto simp: between_def)
    from b 1 have "\<And>s. well_formed (b # c # s) = well_formed s" by simp
    with 1 2 b show ?thesis using two by simp
  next
    case c
    with assms obtain x d ds where 1: "bs = x # d # ds"
      "between (lower_boundary b) (upper_boundary b) x" "between 0x80 0xBF d" "well_formed ds"
      by (cases bs; cases "tl bs") auto
    from c 1 have "\<And>s. well_formed (b # x # d # s) = well_formed s" by simp
    with 1 c show ?thesis using three by simp
  next
    case d
    with assms obtain x y e es where 1: "bs = x # y # e # es"
      "between (lower_boundary b) (upper_boundary b) x" "between 0x80 0xBF y"
      "between 0x80 0xBF e" "well_formed es"
      by (cases bs; cases "tl bs"; cases "tl (tl bs)") auto
    from d have 2: "b \<noteq> CHR 0xED" by (auto simp: between_def)
    from d 1 have "\<And>s. well_formed (b # x # y # e # s) = well_formed s" by simp
    with 1 2 d show ?thesis using four second_byte(1) by simp
  next
    case e
    with assms show ?thesis by simp
  qed
qed

lemma well_formed_plain: "well_formed s \<Longrightarrow> plain s"
proof (induction "length s" arbitrary: s rule: less_induct)
  case less
  show ?case
  proof (cases s)
    case Nil
    then show ?thesis by simp
  next
    case (Cons b bs)
    with less.prems have "well_formed (b # bs)" by simp
    then show ?thesis
    proof (cases rule: well_formed_cases)
      case one
      then have "b \<noteq> CHR 0xED" by auto
      moreover from one Cons less.hyps have "plain bs" by simp
      ultimately show ?thesis using Cons by (simp add: plain_Cons)
    next
      case (two c cs)
      with Cons less.hyps have "plain cs" by simp
      with two show ?thesis
        using Cons by (simp add: plain_Cons continuation_not_lead)
    next
      case (three c d ds)
      with Cons less.hyps have "plain ds" by simp
      then have "plain (c # d # ds)"
        using three second_byte(1) [OF three(3)]
        by (intro plain_Cons) (auto dest: continuation_not_lead)
      with three second_byte(2) [OF three(3)] show ?thesis
        using Cons by simp
    next
      case (four c d e es)
      with Cons less.hyps have "plain es" by simp
      then have "plain (c # d # e # es)"
        using four by (intro plain_Cons) (auto dest: continuation_not_lead)
      with four show ?thesis
        using Cons by (simp add: plain_Cons)
    qed
  qed
qed

lemma well_formed_ascii: "of_char x < (0x80::nat) \<Longrightarrow> well_formed (x # s) = well_formed s"
  by simp

lemma well_formed_ascii_append:
  "\<forall>x \<in> set X. of_char x < (0x80::nat) \<Longrightarrow> well_formed (X @ s) = well_formed s"
  by (induction X) simp_all

lemma quote_body_ascii:
  assumes "of_char c < (0x80::nat)"
  shows "\<exists>X. quote_body (c # cs) = X @ quote_body cs \<and> (\<forall>x \<in> set X. of_char x < (0x80::nat))"
proof -
  from assms have "c \<noteq> CHR 0xED" by auto
  then consider (short) "c \<in> {CHR 0x08, CHR 0x09, CHR 0x0A, CHR 0x0C, CHR 0x0D, CHR 0x22, CHR 0x5C}"
    | (control) "c \<notin> {CHR 0x08, CHR 0x09, CHR 0x0A, CHR 0x0C, CHR 0x0D, CHR 0x22, CHR 0x5C}"
        "of_char c < (0x20::nat)"
    | (other) "c \<notin> {CHR 0x08, CHR 0x09, CHR 0x0A, CHR 0x0C, CHR 0x0D, CHR 0x22, CHR 0x5C}"
        "\<not> of_char c < (0x20::nat)" "c \<noteq> CHR 0xED"
    by blast
  then show ?thesis
  proof cases
    case short
    then obtain x where "quote_body (c # cs) = [CHR 0x5C, x] @ quote_body cs"
      and "of_char x < (0x80::nat)"
      by (elim insertE emptyE; hypsubst; simp)
    then show ?thesis
      by (intro exI [of _ "[CHR 0x5C, x]"]) simp
  next
    case control
    then have "quote_body (c # cs) = unicode_escape (of_char c) @ quote_body cs"
      by simp
    moreover from control(2) have "\<forall>x \<in> set (unicode_escape (of_char c)). of_char x < (0x80::nat)"
      using unicode_escape_ascii [of "of_char c"] by simp
    ultimately show ?thesis by blast
  next
    case other
    then have "quote_body (c # cs) = [c] @ quote_body cs" by simp
    with assms show ?thesis
      by (intro exI [of _ "[c]"]) simp
  qed
qed

lemma well_formed_quote_body: "well_formed s \<Longrightarrow> well_formed (quote_body s)"
proof (induction "length s" arbitrary: s rule: less_induct)
  case less
  show ?case
  proof (cases s)
    case Nil
    then show ?thesis by simp
  next
    case (Cons b bs)
    with less.prems have "well_formed (b # bs)" by simp
    then show ?thesis
    proof (cases rule: well_formed_cases)
      case one
      from quote_body_ascii [OF one(1), of bs] obtain X
        where X: "quote_body (b # bs) = X @ quote_body bs" "\<forall>x \<in> set X. of_char x < (0x80::nat)"
        by blast
      from one Cons less.hyps have "well_formed (quote_body bs)" by simp
      with X Cons show ?thesis by (simp add: well_formed_ascii_append)
    next
      case (two c cs)
      from two Cons less.hyps have "well_formed (quote_body cs)" by simp
      moreover from two have "quote_body (b # bs) = b # c # quote_body cs"
        by (simp add: quote_body_high quote_body_continuation del: quote_body.simps)
      moreover note two(6) [of "quote_body cs"]
      ultimately show ?thesis using Cons by simp
    next
      case (three c d ds)
      note sb = second_byte [OF three(3)]
      from three Cons less.hyps have "well_formed (quote_body ds)" by simp
      moreover have "quote_body (b # bs) = b # c # d # quote_body ds"
      proof (cases "b = CHR 0xED")
        case True
        with sb(2) three show ?thesis
          by (simp add: quote_body_ED quote_body_continuation sb(1) del: quote_body.simps)
      next
        case False
        with three show ?thesis
          by (simp add: quote_body_high quote_body_continuation sb(1) del: quote_body.simps)
      qed
      moreover note three(6) [of "quote_body ds"]
      ultimately show ?thesis using Cons by simp
    next
      case (four c d e es)
      from four Cons less.hyps have "well_formed (quote_body es)" by simp
      moreover from four have "quote_body (b # bs) = b # c # d # e # quote_body es"
        by (simp add: quote_body_high quote_body_continuation del: quote_body.simps)
      moreover note four(8) [of "quote_body es"]
      ultimately show ?thesis using Cons by simp
    qed
  qed
qed

subsection \<open>The line of a fragment\<close>

lemma skip_ws_start: "\<not> json_space c \<Longrightarrow> skip_ws (c # s) = c # s"
  by (simp add: skip_ws_def)

lemma parse_value_string:
  assumes "plain d"
  shows "parse_value (quote d @ rest) = Some (JStr d, rest)"
proof -
  from string_body_quote_body [OF assms, of rest] obtain ps
    where "string_body (quote_body d @ CHR 0x22 # rest) = Some (ps, rest)" and "assemble ps = d"
    by blast
  then show ?thesis
    by (subst parse_value.simps) (simp add: quote_def skip_ws_start json_space_def)
qed

lemma object_of_response: "object_of [(''response'', v)] = [(''response'', v)]"
  by (simp add: object_of_def define_property_def array_index_def digit_def)

lemma parse_members_response:
  assumes "plain d"
  shows \<open>parse_members (''"response":'' @ quote d @ ''}'') = Some ([(''response'', JStr d)], [])\<close>
  by (subst parse_members.simps)
    (simp add: skip_ws_start json_space_def parse_value_string [OF assms])

lemma parse_value_response:
  assumes "plain d"
  shows \<open>parse_value (''{"response":'' @ quote d @ ''}'') = Some (JObj [(''response'', JStr d)], [])\<close>
  using parse_members_response [OF assms]
  by (subst parse_value.simps) (simp add: skip_ws_start json_space_def object_of_response)

lemma JSON_parse_response:
  "plain d \<Longrightarrow> JSON_parse (stringify_response (Value (JStr d))) = Some (JObj [(''response'', JStr d)])"
  using parse_value_response [of d]
  by (simp add: JSON_parse_def stringify_response_def skip_ws_def)

lemma fragment_line_text:
  \<open>fragment_line d = ''{"response":'' @ quote d @ ''}'' @ [CHR 0x0A]\<close>
  by (simp add: fragment_line_def push_def stringify_response_def)

lemma record_no_newline: "CHR 0x0A \<notin> set (stringify_response (Value (JStr d)))"
  by (simp add: stringify_response_def quote_def quote_body_no_newline)

lemma record_brace: "CHR ''{'' \<in> set (stringify_response (Value (JStr d)))"
  by (simp add: stringify_response_def)

lemma well_formed_fragment_line: "well_formed d \<Longrightarrow> well_formed (fragment_line d)"
proof -
  assume "well_formed d"
  then have "well_formed (quote_body d)" by (rule well_formed_quote_body)
  then have \<open>well_formed (quote_body d @ ''"}'' @ [CHR 0x0A])\<close>
    by (intro well_formed_append) simp_all
  then show ?thesis
    by (simp add: fragment_line_text quote_def)
qed

lemma decode_fragment_lines:
  assumes "\<forall>d \<in> set ds. well_formed d"
  shows "TextDecoder_decode (concat (map fragment_line ds)) = concat (map fragment_line ds)"
proof -
  let ?t = "concat (map fragment_line ds)"
  from assms have "well_formed ?t"
    by (intro well_formed_concat) (auto simp: well_formed_fragment_line)
  then have "utf8_decode ?t = ?t" by (rule utf8_decode_well_formed)
  moreover have "take 3 ?t \<noteq> byte_order_mark"
    by (cases ds) (simp_all add: byte_order_mark_def fragment_line_text)
  ultimately show ?thesis by (simp add: TextDecoder_decode_def)
qed

lemma split_fragment_lines:
  "split_newline (concat (map fragment_line ds)) =
     map (\<lambda>d. stringify_response (Value (JStr d))) ds @ [[]]"
proof -
  let ?ls = "map (\<lambda>d. stringify_response (Value (JStr d))) ds"
  have "split_newline (concat (map (\<lambda>l. l @ [CHR 0x0A]) ?ls)) = ?ls @ [[]]"
    by (rule split_newline_lines) (auto simp: record_no_newline)
  moreover have "concat (map fragment_line ds) = concat (map (\<lambda>l. l @ [CHR 0x0A]) ?ls)"
    by (simp add: fragment_line_def [abs_def] push_def comp_def)
  ultimately show ?thesis by simp
qed

lemma apply_line_record:
  assumes "role m = assistant" and "plain d"
  shows "apply_line (earlier @ [m]) (stringify_response (Value (JStr d)))
           = earlier @ [m\<lparr>content := content m @ d\<rparr>]"
  using assms trim_keeps_brace [OF record_brace, of d]
  by (simp add: apply_line_def JSON_parse_response append_response_def text_of_def)

lemma apply_line_empty: "apply_line msgs [] = msgs"
  by (simp add: apply_line_def trim_empty)

lemma foldl_apply_line_records:
  assumes "role m = assistant" and "\<forall>d \<in> set ds. plain d"
  shows "foldl apply_line (earlier @ [m]) (map (\<lambda>d. stringify_response (Value (JStr d))) ds)
           = earlier @ [m\<lparr>content := content m @ concat ds\<rparr>]"
  using assms
proof (induction ds arbitrary: m)
  case Nil
  show ?case by simp
next
  case (Cons d ds)
  from Cons.prems have "role (m\<lparr>content := content m @ d\<rparr>) = assistant" and "\<forall>d \<in> set ds. plain d"
    by simp_all
  from Cons.IH [OF this] Cons.prems show ?case
    by (simp add: apply_line_record)
qed

lemma apply_chunk_fragment_lines:
  assumes "role m = assistant" and "\<forall>d \<in> set ds. well_formed d"
  shows "apply_chunk (earlier @ [m]) (concat (map fragment_line ds))
           = earlier @ [m\<lparr>content := content m @ concat ds\<rparr>]"
proof -
  from assms(2) have "\<forall>d \<in> set ds. plain d" by (simp add: well_formed_plain)
  from foldl_apply_line_records [OF assms(1) this] show ?thesis
    by (simp add: apply_chunk_def decode_fragment_lines [OF assms(2)] split_fragment_lines
        apply_line_empty)
qed

lemma read_loop_fragment_lines:
  assumes "role m = assistant" and "\<forall>g \<in> set groups. \<forall>d \<in> set g. well_formed d"
  shows "read_loop (earlier @ [m]) (map (\<lambda>g. Chunk (concat (map fragment_line g))) groups @ rest)
           = read_loop (earlier @ [m\<lparr>content := content m @ concat (concat groups)\<rparr>]) rest"
  using assms
proof (induction groups arbitrary: m)
  case Nil
  show ?case by simp
next
  case (Cons g groups)
  from Cons.prems have 1: "role (m\<lparr>content := content m @ concat g\<rparr>) = assistant"
    and 2: "\<forall>g \<in> set groups. \<forall>d \<in> set g. well_formed d" and 3: "\<forall>d \<in> set g. well_formed d"
    by simp_all
  from Cons.IH [OF 1 2] Cons.prems(1) 3 show ?case
    by (simp add: apply_chunk_fragment_lines)
qed

subsection \<open>The lines \<open>chatStream\<close> delivers\<close>

lemma deliver_line_record:
  "plain d \<Longrightarrow> deliver_line (stringify_response (Value (JStr d))) = [Value (JStr d)]"
  using trim_keeps_brace [OF record_brace, of d]
  by (simp add: deliver_line_def JSON_parse_response)

lemma deliver_line_empty: "deliver_line [] = []"
  by (simp add: deliver_line_def trim_empty)

lemma deliver_chunk_fragment_lines:
  assumes "\<forall>d \<in> set ds. well_formed d"
  shows "deliver_chunk (concat (map fragment_line ds)) = map (\<lambda>d. Value (JStr d)) ds"
proof -
  from assms have "\<forall>d \<in> set ds. plain d" by (simp add: well_formed_plain)
  then have "concat (map deliver_line (map (\<lambda>d. stringify_response (Value (JStr d))) ds))
      = map (\<lambda>d. Value (JStr d)) ds"
    by (induction ds) (simp_all add: deliver_line_record)
  then show ?thesis
    by (simp add: deliver_chunk_def decode_fragment_lines [OF assms] split_fragment_lines
        deliver_line_empty)
qed

lemma three_lines_fragments: "three_lines = map fragment_line [''Struct'', ''ure: '', ''...'']"
  by (simp add: three_lines_def fragment_line_text quote_def)

lemma push_fragment: "push (Value (JStr d)) = fragment_line d"
  by (simp add: fragment_line_def)

section \<open>The claims\<close>

subsection \<open>Claim C10: the guidance for a content type\<close>

lemma getContentTypePrompt_not_inherited:
  "content_type \<notin> set Object_prototype \<Longrightarrow>
     getContentTypePrompt content_type =
       (case map_of contentTypePrompts content_type of Some s \<Rightarrow> Text s | None \<Rightarrow> Text fallback)"
  by (auto simp: getContentTypePrompt_def lookup_def truthy_def contentTypePrompts_def Let_def)

text \<open>
  Claim C10 says that \<open>getContentTypePrompt\<close> returns one of the six guidance strings for
  the six known content types and the fallback string for every other input. For the
  input \<open>constructor\<close> the lookup finds the member the object literal inherits, which is
  truthy, so the fallback is not taken: the result is that function, not a string, and the
  prompt is built with its printed text.
\<close>

theorem getContentTypePrompt_constructor:
  "getContentTypePrompt ''constructor'' = Inherited ''constructor''
   \<and> getContentTypePrompt ''constructor'' \<noteq> Text fallback
   \<and> interpolate (getContentTypePrompt ''constructor'') = ''function Object() { [native code] }''"
  by (simp add: getContentTypePrompt_def lookup_def truthy_def contentTypePrompts_def
      Object_prototype_def interpolate_def Let_def)

subsection \<open>Claim C5: cancelling twice, and after the end\<close>

lemma stopStream_released: "abortController (service sv) = None \<Longrightarrow> stopStream sv = sv"
  by (simp add: stopStream_def)

lemma stopStream_twice: "stopStream (stopStream sv) = stopStream sv"
  by (simp add: stopStream_def split: option.split)

lemma chatStream_returned_released:
  assumes "chatStream up p ctx sv = (e, out, sv')" and "e \<noteq> Pending"
  shows "abortController (service sv') = None"
  using assms
  by (auto simp: chatStream_def Let_def release_def
      split: stream_fetch.splits option.splits prod.splits stream_end.splits if_splits)

text \<open>
  Claim C5: \<open>stopStream\<close> called a second time changes nothing, and called after a stream
  that completed on its own it changes nothing either. \<open>stopStream\<close> has no path that
  throws.
\<close>

theorem stopStream_idempotent_and_safe:
  "stopStream (stopStream sv) = stopStream sv
   \<and> (chatStream up p ctx sv0 = (Completed, out, sv') \<longrightarrow> stopStream sv' = sv')"
  using chatStream_returned_released [of up p ctx sv0 Completed out sv']
  by (simp add: stopStream_twice stopStream_released)

lemma chatStream_ollama_ends:
  "fst (chatStream (ollama a) p ctx sv) = Completed"
  by (simp add: chatStream_def ollama_def three_lines_def Let_def split: prod.splits)

theorem stopStream_idempotent_and_safe_witness:
  "fst (chatStream (ollama an_answer) ''hello'' None fresh_server) = Completed
   \<and> stopStream (snd (snd (chatStream (ollama an_answer) ''hello'' None fresh_server)))
       = snd (snd (chatStream (ollama an_answer) ''hello'' None fresh_server))
   \<and> stopStream (stopStream fresh_server) = stopStream fresh_server"
proof -
  let ?r = "chatStream (ollama an_answer) ''hello'' None fresh_server"
  have e: "fst ?r = Completed" by (rule chatStream_ollama_ends)
  then have "?r = (Completed, fst (snd ?r), snd (snd ?r))"
    by (metis prod.collapse)
  with stopStream_idempotent_and_safe [of fresh_server "ollama an_answer" "''hello''" None
      fresh_server "fst (snd ?r)" "snd (snd ?r)"] e
  show ?thesis by simp
qed

subsection \<open>Claim C9: what applying a fragment changes\<close>

text \<open>
  Claim C9: the function given to \<open>setMessages\<close> changes only the content of the last
  message, and only when that message is the assistant's; the messages before it, every
  role and timestamp and the length of the log stay, and when the last message is not the
  assistant's the log is returned as it was.
\<close>

theorem append_response_frame:
  assumes "append_response parsed prev = Some next"
  shows "next = butlast prev @ [(last prev)\<lparr>content := content (last next)\<rparr>]
         \<and> length next = length prev
         \<and> butlast next = butlast prev
         \<and> map role next = map role prev
         \<and> map timestamp next = map timestamp prev
         \<and> (role (last prev) \<noteq> assistant \<longrightarrow> next = prev)"
proof (cases prev rule: rev_cases)
  case Nil
  with assms show ?thesis by (simp add: append_response_def)
next
  case (snoc earlier lastMessage)
  with assms show ?thesis
    by (auto simp: append_response_def split: if_splits option.splits)
qed

theorem append_response_frame_witness:
  "append_response (JObj [(''response'', JStr ''ure'')])
       [\<lparr>role = user, content = ''hi'', timestamp = 1\<rparr>,
        \<lparr>role = assistant, content = ''Struct'', timestamp = 2\<rparr>]
     = Some [\<lparr>role = user, content = ''hi'', timestamp = 1\<rparr>,
             \<lparr>role = assistant, content = ''Structure'', timestamp = 2\<rparr>]
   \<and> map timestamp [\<lparr>role = user, content = ''hi'', timestamp = 1\<rparr>,
                     \<lparr>role = assistant, content = ''Structure'', timestamp = 2\<rparr>] = [1, 2]
   \<and> append_response (JObj [(''response'', JStr ''ure'')])
       [\<lparr>role = user, content = ''hi'', timestamp = 1\<rparr>]
     = Some [\<lparr>role = user, content = ''hi'', timestamp = 1\<rparr>]"
proof -
  let ?u = "\<lparr>role = user, content = ''hi'', timestamp = 1\<rparr>"
  let ?a = "\<lparr>role = assistant, content = ''Struct'', timestamp = 2\<rparr>"
  let ?a' = "\<lparr>role = assistant, content = ''Structure'', timestamp = 2\<rparr>"
  let ?p = "JObj [(''response'', JStr ''ure'')]"
  have 1: "append_response ?p [?u, ?a] = Some [?u, ?a']"
    by (simp add: append_response_def text_of_def)
  have 2: "append_response ?p [?u] = Some [?u]"
    by (simp add: append_response_def)
  from append_response_frame [OF 1] append_response_frame [OF 2] 1 2 show ?thesis
    by simp
qed

end
